theory Spec2Isabelle
  imports Main "HOL-Library.Word"
begin

section \<open>JavaScript strings\<close>

text \<open>
  A JavaScript string is a sequence of UTF-16 code units. The regular expressions of
  \<^verbatim>\<open>src/utils/worktree.ts\<close> carry no \<^verbatim>\<open>u\<close> flag, so they work code unit by code unit.
  \<open>utf16\<close> embeds an ASCII literal.
\<close>

type_synonym u16 = "16 word"
type_synonym js_string = "u16 list"

definition utf16 :: "string \<Rightarrow> js_string" where
  "utf16 s = map (\<lambda>c. of_nat (of_char c)) s"

text \<open>
  The class \<^verbatim>\<open>\s\<close> of ECMAScript: the white space code points and the line terminators.
\<close>

definition isWhiteSpace :: "u16 \<Rightarrow> bool" where
  "isWhiteSpace c \<longleftrightarrow>
     c \<in> {0x09, 0x0A, 0x0B, 0x0C, 0x0D, 0x20, 0xA0, 0x1680, 0x2028, 0x2029,
          0x202F, 0x205F, 0x3000, 0xFEFF} \<or> (0x2000 \<le> c \<and> c \<le> 0x200A)"

definition newline :: u16 where
  "newline = 0x0A"

definition hyphen :: u16 where
  "hyphen = 0x2D"

section \<open>sanitizeBranchName (src/utils/worktree.ts)\<close>

text \<open>
  \<^verbatim>\<open>
  export function sanitizeBranchName(branchName: string): string {
    return branchName
      .toLowerCase()
      .replace(/[^a-z0-9-]/g, '-')
      .replace(/-+/g, '-')
      .replace(/^-|-$/g, '')
      .slice(0, 50);
  }
  \<close>
  \<^verbatim>\<open>String.prototype.toLowerCase\<close> is the built-in Unicode case mapping, not code of the
  repository: it is the parameter \<open>toLowerCase\<close>. \<open>asciiLower\<close> is what it does on ASCII
  text.
\<close>

text \<open>The class \<^verbatim>\<open>[a-z0-9-]\<close>.\<close>

definition isBranchChar :: "u16 \<Rightarrow> bool" where
  "isBranchChar c \<longleftrightarrow>
     (0x61 \<le> c \<and> c \<le> 0x7A) \<or> (0x30 \<le> c \<and> c \<le> 0x39) \<or> c = hyphen"

text \<open>\<^verbatim>\<open>.replace(/[^a-z0-9-]/g, '-')\<close>: every other code unit becomes a hyphen.\<close>

definition replaceInvalid :: "js_string \<Rightarrow> js_string" where
  "replaceInvalid s = map (\<lambda>c. if isBranchChar c then c else hyphen) s"

text \<open>\<^verbatim>\<open>.replace(/-+/g, '-')\<close>: every maximal run of hyphens becomes one hyphen.\<close>

fun collapseHyphens :: "js_string \<Rightarrow> js_string" where
  "collapseHyphens [] = []"
| "collapseHyphens [x] = [x]"
| "collapseHyphens (x # y # r) =
     (if x = hyphen \<and> y = hyphen then collapseHyphens (y # r)
      else x # collapseHyphens (y # r))"

text \<open>
  \<^verbatim>\<open>.replace(/^-|-$/g, '')\<close>: the scan removes a hyphen at index 0 (first alternative),
  then, from the index after it, a hyphen that is the last code unit (second alternative).
\<close>

definition trimHyphens :: "js_string \<Rightarrow> js_string" where
  "trimHyphens s =
     (let s1 = (case s of [] \<Rightarrow> [] | x # xs \<Rightarrow> if x = hyphen then xs else s)
      in if s1 \<noteq> [] \<and> last s1 = hyphen then butlast s1 else s1)"

definition sanitizeBranchName :: "(js_string \<Rightarrow> js_string) \<Rightarrow> js_string \<Rightarrow> js_string" where
  "sanitizeBranchName toLowerCase branchName =
     take 50 (trimHyphens (collapseHyphens (replaceInvalid (toLowerCase branchName))))"

definition asciiLower :: "js_string \<Rightarrow> js_string" where
  "asciiLower s = map (\<lambda>c. if 0x41 \<le> c \<and> c \<le> 0x5A then c + 0x20 else c) s"

abbreviation noDouble :: "js_string \<Rightarrow> bool" where
  "noDouble \<equiv> successively (\<lambda>a b. \<not> (a = hyphen \<and> b = hyphen))"

section \<open>parseWorktreeConfig (src/utils/worktree.ts)\<close>

text \<open>
  \<^verbatim>\<open>
  export function parseWorktreeConfig(content: string): WorktreeConfig | null {
    const worktreeMatch = content.match(
      /worktree:\s*\n\s*baseBranch:\s*(\S+)\s*\n\s*branchName:\s*(\S+)/);
    if (worktreeMatch && worktreeMatch[1] && worktreeMatch[2]) {
      return { baseBranch: worktreeMatch[1], branchName: worktreeMatch[2] };
    }
    return null;
  }
  \<close>
  The regular expression is embedded as data and run by a backtracking matcher that
  follows the ECMAScript semantics for the constructs the pattern uses: single code
  units, the classes \<^verbatim>\<open>\s\<close> and \<^verbatim>\<open>\S\<close>, the greedy quantifiers \<^verbatim>\<open>*\<close> and \<^verbatim>\<open>+\<close> on one
  class, and capture groups that are not nested.
\<close>

datatype atom = Chr u16 | Space | NonSpace

fun atomMatches :: "atom \<Rightarrow> u16 \<Rightarrow> bool" where
  "atomMatches (Chr c) x = (x = c)"
| "atomMatches Space x = isWhiteSpace x"
| "atomMatches NonSpace x = (\<not> isWhiteSpace x)"

datatype item = One atom | Star atom | Plus atom | GroupOpen | GroupClose

text \<open>
  The matcher state: the text after the current position, the text collected by the
  capture group that is open (if one is), and the groups already closed, in order.
\<close>

definition consume :: "u16 \<Rightarrow> js_string option \<Rightarrow> js_string option" where
  "consume x cur = map_option (\<lambda>t. t @ [x]) cur"

text \<open>
  A greedy quantifier first takes one more code unit and matches the rest of the
  pattern; only when that fails does it stop and go on with the next item.
\<close>

fun matchHere :: "item list \<Rightarrow> js_string \<Rightarrow> js_string option \<Rightarrow> js_string list \<Rightarrow> js_string list option" where
  "matchHere [] s cur caps = Some caps"
| "matchHere (One a # r) [] cur caps = None"
| "matchHere (One a # r) (x # xs) cur caps =
     (if atomMatches a x then matchHere r xs (consume x cur) caps else None)"
| "matchHere (Plus a # r) [] cur caps = None"
| "matchHere (Plus a # r) (x # xs) cur caps =
     (if atomMatches a x then matchHere (Star a # r) xs (consume x cur) caps else None)"
| "matchHere (Star a # r) [] cur caps = matchHere r [] cur caps"
| "matchHere (Star a # r) (x # xs) cur caps =
     (if atomMatches a x
      then (case matchHere (Star a # r) xs (consume x cur) caps of
              Some res \<Rightarrow> Some res
            | None \<Rightarrow> matchHere r (x # xs) cur caps)
      else matchHere r (x # xs) cur caps)"
| "matchHere (GroupOpen # r) s cur caps = matchHere r s (Some []) caps"
| "matchHere (GroupClose # r) s cur caps =
     matchHere r s None (caps @ [case cur of None \<Rightarrow> [] | Some t \<Rightarrow> t])"

text \<open>
  \<^verbatim>\<open>String.prototype.match\<close> without the \<^verbatim>\<open>g\<close> flag: the match at the leftmost start index
  where the pattern matches, or \<^verbatim>\<open>null\<close>.
\<close>

fun search :: "item list \<Rightarrow> js_string \<Rightarrow> js_string list option" where
  "search re [] = matchHere re [] None []"
| "search re (x # xs) =
     (case matchHere re (x # xs) None [] of
        Some caps \<Rightarrow> Some caps
      | None \<Rightarrow> search re xs)"

definition lit :: "string \<Rightarrow> item list" where
  "lit s = map (\<lambda>c. One (Chr c)) (utf16 s)"

definition worktreeRegex :: "item list" where
  "worktreeRegex =
     lit ''worktree:'' @ [Star Space, One (Chr newline), Star Space] @
     lit ''baseBranch:'' @ [Star Space, GroupOpen, Plus NonSpace, GroupClose,
       Star Space, One (Chr newline), Star Space] @
     lit ''branchName:'' @ [Star Space, GroupOpen, Plus NonSpace, GroupClose]"

record WorktreeConfig =
  baseBranch :: js_string
  branchName :: js_string

text \<open>
  \<^verbatim>\<open>worktreeMatch[1] && worktreeMatch[2]\<close>: a captured string is truthy when it is not
  empty.
\<close>

definition parseWorktreeConfig :: "js_string \<Rightarrow> WorktreeConfig option" where
  "parseWorktreeConfig content =
     (case search worktreeRegex content of
        Some (g1 # g2 # _) \<Rightarrow>
          if g1 \<noteq> [] \<and> g2 \<noteq> [] then Some \<lparr>baseBranch = g1, branchName = g2\<rparr> else None
      | _ \<Rightarrow> None)"

text \<open>
  A worktree block, written out. \<open>blockHere s b n\<close>: the text \<open>s\<close> starts with
  \<^verbatim>\<open>worktree:\<close>, white space holding a line break, \<^verbatim>\<open>baseBranch:\<close>, white space, the value
  \<open>b\<close>, white space holding a line break, \<^verbatim>\<open>branchName:\<close>, white space, and the value \<open>n\<close>;
  both values are non-empty and free of white space, and \<open>n\<close> runs up to the next white
  space or the end of the text (as \<open>b\<close> does, white space following it).
  \<open>worktreeBlock content b n\<close>: such a block starts somewhere in \<open>content\<close>;
  \<open>firstWorktreeBlock content b n\<close>: it is the block that starts first.
\<close>

definition blockHere :: "js_string \<Rightarrow> js_string \<Rightarrow> js_string \<Rightarrow> bool" where
  "blockHere s b n \<longleftrightarrow>
     (\<exists>w1 w2 w3 w4 w5 w6 post.
        s = utf16 ''worktree:'' @ w1 @ [newline] @ w2 @
            utf16 ''baseBranch:'' @ w3 @ b @ w4 @ [newline] @ w5 @
            utf16 ''branchName:'' @ w6 @ n @ post \<and>
        list_all isWhiteSpace (w1 @ w2 @ w3 @ w4 @ w5 @ w6) \<and>
        b \<noteq> [] \<and> n \<noteq> [] \<and> list_all (\<lambda>c. \<not> isWhiteSpace c) (b @ n) \<and>
        (post = [] \<or> isWhiteSpace (hd post)))"

definition worktreeBlock :: "js_string \<Rightarrow> js_string \<Rightarrow> js_string \<Rightarrow> bool" where
  "worktreeBlock content b n \<longleftrightarrow> (\<exists>pre s. content = pre @ s \<and> blockHere s b n)"

definition firstWorktreeBlock :: "js_string \<Rightarrow> js_string \<Rightarrow> js_string \<Rightarrow> bool" where
  "firstWorktreeBlock content b n \<longleftrightarrow>
     (\<exists>pre s. content = pre @ s \<and> blockHere s b n \<and>
        (\<forall>pre' s' b' n'. content = pre' @ s' \<and> length pre' < length pre \<longrightarrow>
           \<not> blockHere s' b' n'))"

text \<open>
  The block as claim C9 words it, read line by line: the input has a line holding
  \<^verbatim>\<open>worktree:\<close>, a later line on which \<^verbatim>\<open>baseBranch:\<close> is followed by a value, and a line
  after that on which \<^verbatim>\<open>branchName:\<close> is followed by a value. Lines end at the ECMAScript
  line terminators. A key is followed by a value on a line when, after the key and
  optional white space, the line goes on with a code unit that is not white space.
\<close>

definition isLineTerminator :: "u16 \<Rightarrow> bool" where
  "isLineTerminator c \<longleftrightarrow> c \<in> {0x0A, 0x0D, 0x2028, 0x2029}"

fun splitLines :: "js_string \<Rightarrow> js_string list" where
  "splitLines [] = [[]]"
| "splitLines (x # xs) =
     (if isLineTerminator x then [] # splitLines xs
      else (case splitLines xs of
              [] \<Rightarrow> [[x]]
            | l # ls \<Rightarrow> (x # l) # ls))"

fun keyWithValue :: "js_string \<Rightarrow> js_string \<Rightarrow> bool" where
  "keyWithValue key [] = False"
| "keyWithValue key (x # xs) =
     ((take (length key) (x # xs) = key \<and>
       dropWhile isWhiteSpace (drop (length key) (x # xs)) \<noteq> []) \<or>
      keyWithValue key xs)"

definition lineBlock :: "js_string \<Rightarrow> bool" where
  "lineBlock content \<longleftrightarrow>
     (\<exists>ls1 l1 ls2 l2 ls3 l3 ls4 pre post.
        splitLines content = ls1 @ l1 # ls2 @ l2 # ls3 @ l3 # ls4 \<and>
        l1 = pre @ utf16 ''worktree:'' @ post \<and>
        keyWithValue (utf16 ''baseBranch:'') l2 \<and>
        keyWithValue (utf16 ''branchName:'') l3)"

text \<open>Auxiliary notions for the proofs about the matcher.\<close>

definition consumeAll :: "js_string \<Rightarrow> js_string option \<Rightarrow> js_string option" where
  "consumeAll w cur = map_option (\<lambda>t. t @ w) cur"

definition accepts :: "item list \<Rightarrow> js_string \<Rightarrow> bool" where
  "accepts re s \<longleftrightarrow> matchHere re s None [] \<noteq> None"

section \<open>executeWorkflow (src/commands/workflowExecution.ts)\<close>

text \<open>
  The parts of \<^verbatim>\<open>executeWorkflow\<close> that touch agent sessions, the worktree and the result:
  \<^verbatim>\<open>
  const { resumeSession = false, ... } = options;
  let worktreeInfo: WorktreeInfo | undefined;
  if (!resumeSession) { clearAgentSessions(cwd); }
  ...
  const savedSessions = loadAgentSessions(cwd);
  const sessionUpdateHandler = (agentName, agentSessionId) => {
    updateAgentSession(cwd, agentName, agentSessionId); };
  const engine = new WorkflowEngine(workflowConfig, cwd, task, {
    onStream: streamHandler, initialSessions: savedSessions,
    onSessionUpdate: sessionUpdateHandler });
  let abortReason: string | undefined;
  engine.on('planner:worktree_config', (config) => {
    try { worktreeInfo = createWorktree(cwd, config.branchName, config.baseBranch);
          engine.updateCwd(worktreeInfo.path); } catch (e) { ... } });
  engine.on('workflow:abort', (state, reason) => { ...; abortReason = reason; ... });
  const finalState = await engine.run();
  return { success: finalState.status === 'completed', reason: abortReason,
           worktree: worktreeInfo };
  \<close>
  Logging, terminal output, the session log and notifications do not touch the state
  modelled here and are left out.
\<close>

text \<open>The agent session map: agent name to session id.\<close>

type_synonym sessions = "string \<rightharpoonup> string"

datatype run_status = running | completed | aborted

text \<open>
  The calls that leave \<^verbatim>\<open>executeWorkflow\<close> or the engine, in the order they happen.
  \<open>NewWorkflowEngine cwd m\<close>: the engine is constructed with \<^verbatim>\<open>initialSessions\<close> \<open>m\<close>;
  \<open>RunAgent agent token\<close>: the engine invokes an agent, passing a prior session token or
  none.
\<close>

datatype effect =
    ClearAgentSessions string
  | LoadAgentSessions string
  | NewWorkflowEngine string sessions
  | RunAgent string "string option"
  | UpdateAgentSession string string string
  | CreateWorktree string js_string js_string

text \<open>
  \<^verbatim>\<open>WorkflowEngine\<close> is not among the sources. Its run is represented by what it does, in
  order, as far as \<^verbatim>\<open>executeWorkflow\<close> can observe it: agent invocations, calls of
  \<^verbatim>\<open>onSessionUpdate\<close>, and the events the function subscribes to. The engine is a parameter
  of \<open>executeWorkflow\<close>: a function from the configuration, directory, task and
  \<^verbatim>\<open>initialSessions\<close> to its actions and the status of the final state.
\<close>

datatype engine_action =
    Invoke string "string option"
  | SessionUpdated string string
  | StepStart string nat
  | StepComplete string string
  | PlannerWorktreeConfig WorktreeConfig
  | WorkflowComplete
  | WorkflowAbort string

text \<open>
  The three functions imported from \<^verbatim>\<open>config/paths.js\<close> are not among the sources either.
  They are a parameter too: functions on a store \<open>'p\<close> of persisted sessions, each taking
  the project directory first.
\<close>

record 'p SessionPaths =
  clearAgentSessions :: "string \<Rightarrow> 'p \<Rightarrow> 'p"
  loadAgentSessions :: "string \<Rightarrow> 'p \<Rightarrow> sessions"
  updateAgentSession :: "string \<Rightarrow> string \<Rightarrow> string \<Rightarrow> 'p \<Rightarrow> 'p"

text \<open>
  The state the function works on: the persisted sessions, the calls made so far, and the
  two local variables the handlers assign.
\<close>

record ('p, 'w) ExecutionState =
  persisted :: 'p
  trace :: "effect list"
  worktreeInfo :: "'w option"
  abortReason :: "string option"

record 'w WorkflowExecutionResult =
  success :: bool
  reason :: "string option"
  worktree :: "'w option"

text \<open>
  The handlers \<^verbatim>\<open>executeWorkflow\<close> registers, applied to one action of the engine.
  \<open>createWorktree\<close> is a parameter (it runs git); \<open>None\<close> stands for its throwing, which
  the handler catches.
\<close>

fun handleAction ::
  "'p SessionPaths \<Rightarrow> (string \<Rightarrow> js_string \<Rightarrow> js_string \<Rightarrow> 'w option) \<Rightarrow> string \<Rightarrow>
   ('p, 'w) ExecutionState \<Rightarrow> engine_action \<Rightarrow> ('p, 'w) ExecutionState" where
  "handleAction paths createWorktree cwd st (Invoke agent token) =
     st\<lparr>trace := trace st @ [RunAgent agent token]\<rparr>"
| "handleAction paths createWorktree cwd st (SessionUpdated agentName agentSessionId) =
     st\<lparr>persisted := updateAgentSession paths cwd agentName agentSessionId (persisted st),
        trace := trace st @ [UpdateAgentSession cwd agentName agentSessionId]\<rparr>"
| "handleAction paths createWorktree cwd st (PlannerWorktreeConfig config) =
     (let st1 = st\<lparr>trace := trace st @
                  [CreateWorktree cwd (branchName config) (baseBranch config)]\<rparr>
      in case createWorktree cwd (branchName config) (baseBranch config) of
           Some info \<Rightarrow> st1\<lparr>worktreeInfo := Some info\<rparr>
         | None \<Rightarrow> st1)"
| "handleAction paths createWorktree cwd st (WorkflowAbort r) = st\<lparr>abortReason := Some r\<rparr>"
| "handleAction paths createWorktree cwd st (StepStart step iteration) = st"
| "handleAction paths createWorktree cwd st (StepComplete step response) = st"
| "handleAction paths createWorktree cwd st WorkflowComplete = st"

definition executeWorkflow ::
  "'p SessionPaths \<Rightarrow>
   ('c \<Rightarrow> string \<Rightarrow> string \<Rightarrow> sessions \<Rightarrow> engine_action list \<times> run_status) \<Rightarrow>
   (string \<Rightarrow> js_string \<Rightarrow> js_string \<Rightarrow> 'w option) \<Rightarrow>
   'c \<Rightarrow> string \<Rightarrow> string \<Rightarrow> bool \<Rightarrow> ('p, 'w) ExecutionState \<Rightarrow>
   'w WorkflowExecutionResult \<times> ('p, 'w) ExecutionState" where
  "executeWorkflow paths engine createWorktree workflowConfig task cwd resumeSession st0 =
     (let st1 = (if \<not> resumeSession
                 then st0\<lparr>persisted := clearAgentSessions paths cwd (persisted st0),
                          trace := trace st0 @ [ClearAgentSessions cwd]\<rparr>
                 else st0);
          savedSessions = loadAgentSessions paths cwd (persisted st1);
          st2 = st1\<lparr>trace := trace st1 @
                    [LoadAgentSessions cwd, NewWorkflowEngine cwd savedSessions],
                    worktreeInfo := None, abortReason := None\<rparr>;
          (actions, finalStatus) = engine workflowConfig cwd task savedSessions;
          st3 = foldl (handleAction paths createWorktree cwd) st2 actions
      in (\<lparr>success = (finalStatus = completed), reason = abortReason st3,
           worktree = worktreeInfo st3\<rparr>, st3))"

text \<open>
  For the statements about \<open>executeWorkflow\<close>: the calls one action of the engine leads to,
  the store after one action, and the invocations of a given agent among actions and
  among calls.
\<close>

fun actionEffects :: "string \<Rightarrow> engine_action \<Rightarrow> effect list" where
  "actionEffects cwd (Invoke agent token) = [RunAgent agent token]"
| "actionEffects cwd (SessionUpdated a t) = [UpdateAgentSession cwd a t]"
| "actionEffects cwd (PlannerWorktreeConfig config) =
     [CreateWorktree cwd (branchName config) (baseBranch config)]"
| "actionEffects cwd _ = []"

fun applyUpdate :: "'p SessionPaths \<Rightarrow> string \<Rightarrow> 'p \<Rightarrow> engine_action \<Rightarrow> 'p" where
  "applyUpdate paths cwd p (SessionUpdated a t) = updateAgentSession paths cwd a t p"
| "applyUpdate paths cwd p _ = p"

fun isInvoke :: "string \<Rightarrow> engine_action \<Rightarrow> bool" where
  "isInvoke agent (Invoke a token) = (a = agent)"
| "isInvoke agent _ = False"

fun isRunAgent :: "string \<Rightarrow> effect \<Rightarrow> bool" where
  "isRunAgent agent (RunAgent a token) = (a = agent)"
| "isRunAgent agent _ = False"

text \<open>
  Modelled from the spec: an instance of the missing \<^verbatim>\<open>config/paths.js\<close> functions, for
  the examples. The spec's session persistence is \<^verbatim>\<open>load() -> sessionMap\<close>,
  \<^verbatim>\<open>save(agentIdentity, token)\<close>, \<^verbatim>\<open>clear()\<close>; the store keeps one session map per project
  directory.
\<close>

definition storedSessions :: "(string \<Rightarrow> sessions) SessionPaths" where
  "storedSessions =
     \<lparr>clearAgentSessions = (\<lambda>cwd p. p(cwd := Map.empty)),
      loadAgentSessions = (\<lambda>cwd p. p cwd),
      updateAgentSession = (\<lambda>cwd agent token p. p(cwd := (p cwd)(agent \<mapsto> token)))\<rparr>"

text \<open>
  Modelled from the spec: an instance of the missing \<^verbatim>\<open>WorkflowEngine\<close>, for the examples.
  The spec has \<^verbatim>\<open>invoke(agentRef, instructionText, priorSessionToken?)\<close> and a session map
  that starts from the sessions loaded at run start and is updated after every successful
  invocation, each update being handed on for persistence. A script lists the agents
  invoked and the session token each invocation returns.
\<close>

fun sessionActions :: "sessions \<Rightarrow> (string \<times> string) list \<Rightarrow> engine_action list" where
  "sessionActions sessionMap [] = []"
| "sessionActions sessionMap ((agent, token) # script) =
     Invoke agent (sessionMap agent) # SessionUpdated agent token #
     sessionActions (sessionMap(agent \<mapsto> token)) script"

definition scriptedEngine ::
  "(string \<times> string) list \<Rightarrow> run_status \<Rightarrow> 'c \<Rightarrow> string \<Rightarrow> string \<Rightarrow> sessions \<Rightarrow>
   engine_action list \<times> run_status" where
  "scriptedEngine script final workflowConfig cwd task initialSessions =
     (sessionActions initialSessions script, final)"

section \<open>Workflow rules and movements\<close>

text \<open>
  The rule and movement objects as the sources use them: \<^verbatim>\<open>rule-utils\<close> reads
  \<^verbatim>\<open>step.rules\<close>, \<^verbatim>\<open>r.isAiCondition\<close> and \<^verbatim>\<open>r.isAggregateCondition\<close>; the loader tests read
  \<^verbatim>\<open>r.aggregateType\<close> (\<^verbatim>\<open>'all'\<close> or \<^verbatim>\<open>'any'\<close>), \<^verbatim>\<open>r.aggregateConditionText\<close>, \<^verbatim>\<open>rule.condition\<close>
  and \<^verbatim>\<open>rule.next\<close>. The two flags are optional in the source; a missing flag is falsy and
  is \<open>False\<close> here. The field \<^verbatim>\<open>next\<close> is \<open>rule_next\<close>. Of a movement only the name and
  the optional rule list are needed.
\<close>

datatype aggregateType = All | Any

record WorkflowRule =
  condition :: string
  rule_next :: string
  isAiCondition :: bool
  isAggregateCondition :: bool
  aggregateType :: "aggregateType option"
  aggregateConditionText :: "string option"

record WorkflowMovement =
  name :: string
  rules :: "WorkflowRule list option"

text \<open>The terminal movement names of \<^verbatim>\<open>src/core/workflow/constants.ts\<close>.\<close>

definition COMPLETE_MOVEMENT :: string where
  "COMPLETE_MOVEMENT = ''COMPLETE''"

definition ABORT_MOVEMENT :: string where
  "ABORT_MOVEMENT = ''ABORT''"

text \<open>
  \<^verbatim>\<open>
  export function hasTagBasedRules(step: WorkflowMovement): boolean {
    if (!step.rules || step.rules.length === 0) return false;
    const allNonTagConditions =
      step.rules.every((r) => r.isAiCondition || r.isAggregateCondition);
    return !allNonTagConditions;
  }
  \<close>
\<close>

definition hasTagBasedRules :: "WorkflowMovement \<Rightarrow> bool" where
  "hasTagBasedRules step =
     (case rules step of
        None \<Rightarrow> False
      | Some rs \<Rightarrow>
          if length rs = 0 then False
          else (let allNonTagConditions =
                      list_all (\<lambda>r. isAiCondition r \<or> isAggregateCondition r) rs
                in \<not> allNonTagConditions))"

section \<open>Rule Matcher\<close>

text \<open>
  Modelled from the spec: the Rule Matcher (\<^verbatim>\<open>detectMatchedRule\<close> of
  \<^verbatim>\<open>core/workflow/evaluation\<close>) is missing from the sources; the tests replace it by a mock.
  The spec's contract is \<^verbatim>\<open>resolve(rules, signal) -> MatchedRule | NoMatch\<close>. The signal is
  a tag (leaf case) or a mapping from sub-movement name to its resolved condition (fan-out
  case), given here by its entries. A tag-based rule matches iff the tag equals its
  condition; an AI-condition rule matches iff the judgment call the caller supplies
  accepts its condition text; an \<^verbatim>\<open>all\<close> aggregate rule matches iff every sub-movement's
  condition equals \<^verbatim>\<open>aggregateConditionText\<close>, an \<^verbatim>\<open>any\<close> rule iff at least one does. Rules
  are tried in declared order and the first that matches is the result; \<open>None\<close> is
  \<^verbatim>\<open>NoMatch\<close>. Aggregate rules belong to fan-out movements and the other rules to leaf
  movements, so a rule of the wrong kind for the signal does not match.
\<close>

datatype MatchSignal = Tag string | Outcomes "(string \<times> string) list"

definition isTagBased :: "WorkflowRule \<Rightarrow> bool" where
  "isTagBased r \<longleftrightarrow> \<not> isAiCondition r \<and> \<not> isAggregateCondition r"

fun ruleMatches :: "(string \<Rightarrow> bool) \<Rightarrow> MatchSignal \<Rightarrow> WorkflowRule \<Rightarrow> bool" where
  "ruleMatches judge (Tag t) r =
     (if isAggregateCondition r then False
      else if isAiCondition r then judge (condition r)
      else condition r = t)"
| "ruleMatches judge (Outcomes m) r =
     (if isAggregateCondition r then
        (case (aggregateType r, aggregateConditionText r) of
           (Some All, Some c) \<Rightarrow> list_all (\<lambda>(sub, outcome). outcome = c) m
         | (Some Any, Some c) \<Rightarrow> list_ex (\<lambda>(sub, outcome). outcome = c) m
         | _ \<Rightarrow> False)
      else False)"

fun resolve :: "(string \<Rightarrow> bool) \<Rightarrow> WorkflowRule list \<Rightarrow> MatchSignal \<Rightarrow> WorkflowRule option" where
  "resolve judge [] signal = None"
| "resolve judge (r # rs) signal =
     (if ruleMatches judge signal r then Some r else resolve judge rs signal)"

text \<open>Rules as a workflow file declares them, for the examples.\<close>

definition tagRule :: "string \<Rightarrow> string \<Rightarrow> WorkflowRule" where
  "tagRule c n = \<lparr>condition = c, rule_next = n, isAiCondition = False,
     isAggregateCondition = False, aggregateType = None, aggregateConditionText = None\<rparr>"

definition aggregateRule :: "aggregateType \<Rightarrow> string \<Rightarrow> string \<Rightarrow> WorkflowRule" where
  "aggregateRule ty c n = \<lparr>condition = c, rule_next = n, isAiCondition = False,
     isAggregateCondition = True, aggregateType = Some ty, aggregateConditionText = Some c\<rparr>"

section \<open>Properties of sanitizeBranchName\<close>

lemma set_collapseHyphens: "set (collapseHyphens s) \<subseteq> set s"
  by (induction s rule: collapseHyphens.induct) auto

lemma hd_collapseHyphens:
  "s \<noteq> [] \<Longrightarrow> collapseHyphens s \<noteq> [] \<and> hd (collapseHyphens s) = hd s"
  by (induction s rule: collapseHyphens.induct) auto

lemma noDouble_collapseHyphens: "noDouble (collapseHyphens s)"
proof (induction s rule: collapseHyphens.induct)
  case (3 x y r)
  then show ?case
    using hd_collapseHyphens [of "y # r"]
    by (auto simp: successively_Cons)
qed simp_all

lemma noDouble_tl: "noDouble s \<Longrightarrow> noDouble (tl s)"
  by (cases s) (auto simp: successively_Cons)

lemma successively_butlast: "successively P s \<Longrightarrow> successively P (butlast s)"
  by (induction P s rule: successively.induct) auto

lemma successively_take: "successively P s \<Longrightarrow> successively P (take n s)"
  by (simp add: successively_conv_nth)

lemma set_trimHyphens: "set (trimHyphens s) \<subseteq> set s"
  by (auto simp: trimHyphens_def Let_def split: list.splits dest: in_set_butlastD)

lemma noDouble_trimHyphens: "noDouble s \<Longrightarrow> noDouble (trimHyphens s)"
  using noDouble_tl [of s] successively_butlast [of _ s] successively_butlast [of _ "tl s"]
  by (auto simp: trimHyphens_def Let_def split: list.splits)

lemma hd_trimHyphens: "noDouble s \<Longrightarrow> trimHyphens s = [] \<or> hd (trimHyphens s) \<noteq> hyphen"
  apply (cases s)
   apply (simp add: trimHyphens_def)
  subgoal for x xs
    apply (cases xs)
     apply (simp add: trimHyphens_def)
    apply (cases "tl xs")
     apply (auto simp: trimHyphens_def Let_def successively_Cons)
    done
  done

lemma hd_take: "s = [] \<or> hd s \<noteq> h \<Longrightarrow> take n s = [] \<or> hd (take n s) \<noteq> h"
  by (cases s; cases n) auto

lemma set_replaceInvalid: "c \<in> set (replaceInvalid s) \<Longrightarrow> isBranchChar c"
  by (auto simp: replaceInvalid_def isBranchChar_def)

text \<open>
  Claim C10. For every input string and whatever the case mapping does, the result of
  sanitizeBranchName has at most 50 code units, each of them a lowercase ASCII letter, a
  digit or a hyphen; it does not start with a hyphen and no two neighbouring code units
  are both hyphens.
\<close>

theorem sanitizeBranchName_shape:
  "length (sanitizeBranchName lc s) \<le> 50 \<and>
   (\<forall>c \<in> set (sanitizeBranchName lc s). isBranchChar c) \<and>
   (sanitizeBranchName lc s = [] \<or> hd (sanitizeBranchName lc s) \<noteq> hyphen) \<and>
   (\<forall>i. Suc i < length (sanitizeBranchName lc s) \<longrightarrow>
      \<not> (sanitizeBranchName lc s ! i = hyphen \<and> sanitizeBranchName lc s ! Suc i = hyphen))"
proof -
  let ?a = "replaceInvalid (lc s)"
  let ?b = "collapseHyphens ?a"
  let ?c = "trimHyphens ?b"
  let ?r = "sanitizeBranchName lc s"
  have r: "?r = take 50 ?c" by (simp add: sanitizeBranchName_def)
  have len: "length ?r \<le> 50" by (simp add: r)
  have "set ?r \<subseteq> set ?a"
    using set_take_subset [of 50 ?c] set_trimHyphens [of ?b] set_collapseHyphens [of ?a]
    unfolding r by blast
  then have chars: "\<forall>c \<in> set ?r. isBranchChar c"
    using set_replaceInvalid by blast
  have nd: "noDouble ?b" by (rule noDouble_collapseHyphens)
  have first: "?r = [] \<or> hd ?r \<noteq> hyphen"
    unfolding r by (rule hd_take) (rule hd_trimHyphens [OF nd])
  have "noDouble ?r"
    unfolding r by (intro successively_take noDouble_trimHyphens nd)
  then have pairs: "\<forall>i. Suc i < length ?r \<longrightarrow> \<not> (?r ! i = hyphen \<and> ?r ! Suc i = hyphen)"
    by (simp add: successively_conv_nth)
  from len chars first pairs show ?thesis by blast
qed

lemma sanitizeBranchName_example:
  "sanitizeBranchName asciiLower (utf16 ''--Feature/Add  User__Auth!--'') =
   utf16 ''feature-add-user-auth''"
  by (simp add: sanitizeBranchName_def asciiLower_def utf16_def replaceInvalid_def
      isBranchChar_def hyphen_def trimHyphens_def)

theorem sanitizeBranchName_shape_witness:
  "sanitizeBranchName asciiLower (utf16 ''--Feature/Add  User__Auth!--'') =
     utf16 ''feature-add-user-auth'' \<and>
   length (utf16 ''feature-add-user-auth'') \<le> 50 \<and>
   list_all isBranchChar (utf16 ''feature-add-user-auth'') \<and>
   hd (utf16 ''feature-add-user-auth'') \<noteq> hyphen \<and>
   Suc 7 < length (utf16 ''feature-add-user-auth'') \<and>
   utf16 ''feature-add-user-auth'' ! 7 = hyphen \<and>
   utf16 ''feature-add-user-auth'' ! Suc 7 \<noteq> hyphen"
  using sanitizeBranchName_shape [of asciiLower "utf16 ''--Feature/Add  User__Auth!--''"]
  unfolding sanitizeBranchName_example
  by (simp add: utf16_def hyphen_def isBranchChar_def)

section \<open>Properties of parseWorktreeConfig\<close>

lemma consume_consumeAll: "consume x (consumeAll w cur) = consumeAll (w @ [x]) cur"
  by (cases cur) (simp_all add: consume_def consumeAll_def)

lemma consumeAll_Nil [simp]: "consumeAll [] cur = cur"
  by (cases cur) (simp_all add: consumeAll_def)

lemma consumeAll_consume: "consumeAll w (consume x cur) = consumeAll (x # w) cur"
  by (cases cur) (simp_all add: consume_def consumeAll_def)

lemma matchHere_None_indep:
  "matchHere re s cur caps = None \<Longrightarrow> matchHere re s cur' caps' = None"
proof (induction re s cur caps arbitrary: cur' caps' rule: matchHere.induct)
  case (7 a r x xs cur caps)
  show ?case
  proof (cases "atomMatches a x")
    case True
    with "7.prems" have a: "matchHere (Star a # r) xs (consume x cur) caps = None"
      and b: "matchHere r (x # xs) cur caps = None"
      by (simp_all split: option.splits)
    from "7.IH"(1) [OF True a] have "matchHere (Star a # r) xs (consume x cur') caps' = None" .
    moreover from "7.IH"(2) [OF True a b] have "matchHere r (x # xs) cur' caps' = None" .
    ultimately show ?thesis using True by simp
  next
    case False
    with "7.prems" have "matchHere r (x # xs) cur caps = None" by simp
    from "7.IH"(3) [OF False this] show ?thesis using False by simp
  qed
qed (simp_all split: if_splits)

lemma accepts_iff: "accepts re s \<longleftrightarrow> matchHere re s cur caps \<noteq> None"
proof
  assume "accepts re s"
  then have "matchHere re s None [] \<noteq> None" by (simp add: accepts_def)
  with matchHere_None_indep [of re s cur caps None "[]"]
  show "matchHere re s cur caps \<noteq> None" by (cases "matchHere re s cur caps") simp_all
next
  assume "matchHere re s cur caps \<noteq> None"
  with matchHere_None_indep [of re s None "[]" cur caps]
  show "accepts re s" unfolding accepts_def by (cases "matchHere re s None []") simp_all
qed

lemma matchHere_lit:
  "matchHere (map (\<lambda>c. One (Chr c)) w @ r) s cur caps = Some res \<longleftrightarrow>
     (\<exists>rest. s = w @ rest \<and> matchHere r rest (consumeAll w cur) caps = Some res)"
proof (induction w arbitrary: s cur)
  case Nil
  then show ?case by simp
next
  case (Cons c w)
  show ?case
  proof (cases s)
    case Nil
    then show ?thesis by simp
  next
    case (Cons x xs)
    then show ?thesis
      using Cons.IH [of xs "consume x cur"] by (auto simp: consumeAll_consume)
  qed
qed

lemma matchHere_Star_sound:
  "matchHere (Star a # r) s cur caps = Some res \<Longrightarrow>
     \<exists>w rest. s = w @ rest \<and> list_all (atomMatches a) w \<and>
       matchHere r rest (consumeAll w cur) caps = Some res"
proof (induction s arbitrary: cur)
  case Nil
  then show ?case by (intro exI [of _ "[]"]) simp
next
  case (Cons x xs)
  show ?case
  proof (cases "atomMatches a x \<and> matchHere (Star a # r) xs (consume x cur) caps \<noteq> None")
    case True
    then have "matchHere (Star a # r) xs (consume x cur) caps = Some res"
      using Cons.prems by auto
    from Cons.IH [OF this] obtain w rest where
      "xs = w @ rest" "list_all (atomMatches a) w"
      "matchHere r rest (consumeAll w (consume x cur)) caps = Some res" by blast
    with True show ?thesis
      by (intro exI [of _ "x # w"] exI [of _ rest]) (simp add: consumeAll_consume)
  next
    case False
    then have "matchHere r (x # xs) cur caps = Some res"
      using Cons.prems by (auto split: if_splits)
    then show ?thesis by (intro exI [of _ "[]"] exI [of _ "x # xs"]) simp
  qed
qed

lemma matchHere_Plus_sound:
  "matchHere (Plus a # r) s cur caps = Some res \<Longrightarrow>
     \<exists>w rest. s = w @ rest \<and> w \<noteq> [] \<and> list_all (atomMatches a) w \<and>
       matchHere r rest (consumeAll w cur) caps = Some res"
proof (cases s)
  case Nil
  assume "matchHere (Plus a # r) s cur caps = Some res"
  with Nil show ?thesis by simp
next
  case (Cons x xs)
  assume m: "matchHere (Plus a # r) s cur caps = Some res"
  with Cons have ax: "atomMatches a x" and
    "matchHere (Star a # r) xs (consume x cur) caps = Some res"
    by (auto split: if_splits)
  from matchHere_Star_sound [OF this(2)] obtain w rest where
    "xs = w @ rest" "list_all (atomMatches a) w"
    "matchHere r rest (consumeAll w (consume x cur)) caps = Some res" by blast
  with Cons ax show ?thesis
    by (intro exI [of _ "x # w"] exI [of _ rest]) (simp add: consumeAll_consume)
qed

lemma accepts_Nil [simp]: "accepts [] s"
  by (simp add: accepts_def)

lemma accepts_Group [simp]:
  "accepts (GroupOpen # r) s = accepts r s" "accepts (GroupClose # r) s = accepts r s"
  using accepts_iff [of r s "Some []" "[]"] accepts_iff [of r s None "[[]]"]
  by (simp_all add: accepts_def)

lemma accepts_One:
  "atomMatches a x \<Longrightarrow> accepts r xs \<Longrightarrow> accepts (One a # r) (x # xs)"
  using accepts_iff [of r xs "consume x None" "[]"] by (simp add: accepts_def)

lemma accepts_lit: "accepts r rest \<Longrightarrow> accepts (map (\<lambda>c. One (Chr c)) w @ r) (w @ rest)"
  by (induction w) (simp_all add: accepts_One)

lemma accepts_Star:
  "list_all (atomMatches a) w \<Longrightarrow> accepts r rest \<Longrightarrow> accepts (Star a # r) (w @ rest)"
proof (induction w)
  case Nil
  then show ?case by (cases rest) (auto simp: accepts_def split: option.splits)
next
  case (Cons x w)
  then have "accepts (Star a # r) (w @ rest)" by simp
  then have "matchHere (Star a # r) (w @ rest) (consume x None) [] \<noteq> None"
    using accepts_iff by blast
  with Cons.prems show ?case by (auto simp: accepts_def)
qed

lemma accepts_Plus:
  "w \<noteq> [] \<Longrightarrow> list_all (atomMatches a) w \<Longrightarrow> accepts r rest \<Longrightarrow>
   accepts (Plus a # r) (w @ rest)"
proof (cases w)
  case Nil
  assume "w \<noteq> []"
  with Nil show ?thesis by simp
next
  case (Cons x v)
  assume "list_all (atomMatches a) w" "accepts r rest"
  with Cons have ax: "atomMatches a x" and "accepts (Star a # r) (v @ rest)"
    by (simp_all add: accepts_Star)
  then have "matchHere (Star a # r) (v @ rest) (consume x None) [] \<noteq> None"
    using accepts_iff by blast
  with Cons ax show ?thesis by (simp add: accepts_def)
qed

lemma search_sound:
  "search re s = Some caps \<Longrightarrow>
     \<exists>pre rest. s = pre @ rest \<and> matchHere re rest None [] = Some caps \<and>
       (\<forall>pre' rest'. s = pre' @ rest' \<and> length pre' < length pre \<longrightarrow>
          matchHere re rest' None [] = None)"
proof (induction s)
  case Nil
  then show ?case by simp
next
  case (Cons x xs)
  show ?case
  proof (cases "matchHere re (x # xs) None []")
    case None
    with Cons.prems have "search re xs = Some caps" by simp
    from Cons.IH [OF this] obtain pre rest where
      xs: "xs = pre @ rest" and m: "matchHere re rest None [] = Some caps"
      and first: "\<forall>pre' rest'. xs = pre' @ rest' \<and> length pre' < length pre \<longrightarrow>
          matchHere re rest' None [] = None" by blast
    have "\<forall>pre' rest'. x # xs = pre' @ rest' \<and> length pre' < length (x # pre) \<longrightarrow>
          matchHere re rest' None [] = None"
    proof (intro allI impI)
      fix pre' rest'
      assume a: "x # xs = pre' @ rest' \<and> length pre' < length (x # pre)"
      show "matchHere re rest' None [] = None"
      proof (cases pre')
        case Nil
        with a None show ?thesis by simp
      next
        case (Cons y ys)
        with a have "xs = ys @ rest'" "length ys < length pre" by simp_all
        with first show ?thesis by blast
      qed
    qed
    with xs m show ?thesis by (intro exI [of _ "x # pre"] exI [of _ rest]) simp
  next
    case (Some c)
    with Cons.prems have "matchHere re (x # xs) None [] = Some caps" by simp
    then show ?thesis by (intro exI [of _ "[]"] exI [of _ "x # xs"]) simp
  qed
qed

lemma search_complete: "accepts re rest \<Longrightarrow> search re (pre @ rest) \<noteq> None"
proof (induction pre)
  case Nil
  then obtain c where "matchHere re rest None [] = Some c"
    by (auto simp: accepts_def)
  then show ?case by (cases rest) simp_all
next
  case (Cons x pre)
  then show ?case by (simp split: option.splits)
qed

lemma consumeAll_simps [simp]:
  "consumeAll w None = None" "consumeAll w (Some t) = Some (t @ w)"
  by (simp_all add: consumeAll_def)

lemma matchHere_One_sound:
  "matchHere (One (Chr c) # r) s cur caps = Some res \<Longrightarrow>
     \<exists>rest. s = c # rest \<and> matchHere r rest (consume c cur) caps = Some res"
  by (cases s) (auto split: if_splits)

lemma list_all_Space: "list_all (atomMatches Space) w = list_all isWhiteSpace w"
  by (induction w) simp_all

lemma list_all_NonSpace: "list_all (atomMatches NonSpace) w = list_all (\<lambda>c. \<not> isWhiteSpace c) w"
  by (induction w) simp_all

lemma matchHere_Star_last:
  "matchHere [Star a, GroupClose] s (Some t) caps =
     Some (caps @ [t @ takeWhile (atomMatches a) s])"
proof (induction s arbitrary: t)
  case Nil
  show ?case by simp
next
  case (Cons x xs)
  show ?case
  proof (cases "atomMatches a x")
    case True
    with Cons [of "t @ [x]"] show ?thesis by (simp add: consume_def)
  next
    case False
    then show ?thesis by simp
  qed
qed

lemma matchHere_Plus_last:
  assumes "matchHere [Plus NonSpace, GroupClose] s (Some t) caps = Some res"
  shows "\<exists>n post. s = n @ post \<and> n \<noteq> [] \<and> list_all (\<lambda>c. \<not> isWhiteSpace c) n \<and>
           (post = [] \<or> isWhiteSpace (hd post)) \<and> res = caps @ [t @ n]"
proof (cases s)
  case Nil
  with assms show ?thesis by simp
next
  case (Cons x xs)
  let ?n = "x # takeWhile (atomMatches NonSpace) xs"
  let ?post = "dropWhile (atomMatches NonSpace) xs"
  from assms Cons have x: "\<not> isWhiteSpace x"
    and "matchHere [Star NonSpace, GroupClose] xs (Some (t @ [x])) caps = Some res"
    by (auto simp: consume_def split: if_splits)
  then have res: "res = caps @ [t @ ?n]"
    by (simp add: matchHere_Star_last)
  have "list_all (atomMatches NonSpace) (takeWhile (atomMatches NonSpace) xs)"
    by (auto simp: list_all_iff dest!: set_takeWhileD)
  with x have all: "list_all (\<lambda>c. \<not> isWhiteSpace c) ?n"
    by (simp add: list_all_NonSpace)
  have post: "?post = [] \<or> isWhiteSpace (hd ?post)"
    using hd_dropWhile [of "atomMatches NonSpace" xs] by auto
  have "s = ?n @ ?post" using Cons by simp
  with all post res show ?thesis by blast
qed

lemma worktreeRegex_sound:
  assumes "matchHere worktreeRegex s None [] = Some caps"
  shows "\<exists>b n. caps = [b, n] \<and> blockHere s b n"
proof -
  let ?tail2 = "[Star Space, GroupOpen, Plus NonSpace, GroupClose]"
  let ?mid2 = "lit ''branchName:'' @ ?tail2"
  let ?tail1 = "Star Space # GroupOpen # Plus NonSpace # GroupClose #
       Star Space # One (Chr newline) # Star Space # ?mid2"
  let ?mid1 = "lit ''baseBranch:'' @ ?tail1"
  have re: "worktreeRegex = lit ''worktree:'' @ (Star Space # One (Chr newline) # Star Space # ?mid1)"
    by (simp add: worktreeRegex_def)
  from assms obtain s1 where s: "s = utf16 ''worktree:'' @ s1"
    and m1: "matchHere (Star Space # One (Chr newline) # Star Space # ?mid1) s1 None [] = Some caps"
    unfolding re lit_def matchHere_lit by auto
  from matchHere_Star_sound [OF m1] obtain w1 s2 where s1: "s1 = w1 @ s2"
    and w1: "list_all isWhiteSpace w1"
    and m2: "matchHere (One (Chr newline) # Star Space # ?mid1) s2 None [] = Some caps"
    by (auto simp: list_all_Space)
  from matchHere_One_sound [OF m2] obtain s3 where s2: "s2 = newline # s3"
    and m3: "matchHere (Star Space # ?mid1) s3 None [] = Some caps"
    by (auto simp: consume_def)
  from matchHere_Star_sound [OF m3] obtain w2 s4 where s3: "s3 = w2 @ s4"
    and w2: "list_all isWhiteSpace w2"
    and m4: "matchHere ?mid1 s4 None [] = Some caps"
    by (auto simp: list_all_Space)
  from m4 obtain s5 where s4: "s4 = utf16 ''baseBranch:'' @ s5"
    and m5: "matchHere ?tail1 s5 None [] = Some caps"
    unfolding lit_def matchHere_lit by auto
  from matchHere_Star_sound [OF m5] obtain w3 s6 where s5: "s5 = w3 @ s6"
    and w3: "list_all isWhiteSpace w3"
    and m6: "matchHere (Plus NonSpace # GroupClose #
       Star Space # One (Chr newline) # Star Space # ?mid2) s6 (Some []) [] = Some caps"
    by (auto simp: list_all_Space)
  from matchHere_Plus_sound [OF m6] obtain b s7 where s6: "s6 = b @ s7"
    and b: "b \<noteq> []" "list_all (\<lambda>c. \<not> isWhiteSpace c) b"
    and m7: "matchHere (Star Space # One (Chr newline) # Star Space # ?mid2) s7 None [b] = Some caps"
    by (auto simp: list_all_NonSpace)
  from matchHere_Star_sound [OF m7] obtain w4 s8 where s7: "s7 = w4 @ s8"
    and w4: "list_all isWhiteSpace w4"
    and m8: "matchHere (One (Chr newline) # Star Space # ?mid2) s8 None [b] = Some caps"
    by (auto simp: list_all_Space)
  from matchHere_One_sound [OF m8] obtain s9 where s8: "s8 = newline # s9"
    and m9: "matchHere (Star Space # ?mid2) s9 None [b] = Some caps"
    by (auto simp: consume_def)
  from matchHere_Star_sound [OF m9] obtain w5 s10 where s9: "s9 = w5 @ s10"
    and w5: "list_all isWhiteSpace w5"
    and m10: "matchHere ?mid2 s10 None [b] = Some caps"
    by (auto simp: list_all_Space)
  from m10 obtain s11 where s10: "s10 = utf16 ''branchName:'' @ s11"
    and m11: "matchHere ?tail2 s11 None [b] = Some caps"
    unfolding lit_def matchHere_lit by auto
  from matchHere_Star_sound [OF m11] obtain w6 s12 where s11: "s11 = w6 @ s12"
    and w6: "list_all isWhiteSpace w6"
    and m12: "matchHere [Plus NonSpace, GroupClose] s12 (Some []) [b] = Some caps"
    by (auto simp: list_all_Space)
  from matchHere_Plus_last [OF m12] obtain n post where s12: "s12 = n @ post"
    and n: "n \<noteq> []" "list_all (\<lambda>c. \<not> isWhiteSpace c) n"
    and post: "post = [] \<or> isWhiteSpace (hd post)"
    and caps: "caps = [b, n]"
    by auto
  have eq: "s = utf16 ''worktree:'' @ w1 @ [newline] @ w2 @
            utf16 ''baseBranch:'' @ w3 @ b @ w4 @ [newline] @ w5 @
            utf16 ''branchName:'' @ w6 @ n @ post"
    by (simp add: s s1 s2 s3 s4 s5 s6 s7 s8 s9 s10 s11 s12)
  have ws: "list_all isWhiteSpace (w1 @ w2 @ w3 @ w4 @ w5 @ w6)"
    using w1 w2 w3 w4 w5 w6 by simp
  have nws: "list_all (\<lambda>c. \<not> isWhiteSpace c) (b @ n)"
    using b n by simp
  have "blockHere s b n"
    unfolding blockHere_def using eq ws nws b(1) n(1) post by blast
  with caps show ?thesis by blast
qed

lemma worktreeRegex_complete:
  assumes "blockHere s b n"
  shows "accepts worktreeRegex s"
proof -
  from assms obtain w1 w2 w3 w4 w5 w6 post where
    s0: "s = utf16 ''worktree:'' @ w1 @ [newline] @ w2 @
            utf16 ''baseBranch:'' @ w3 @ b @ w4 @ [newline] @ w5 @
            utf16 ''branchName:'' @ w6 @ n @ post"
    and ws: "list_all isWhiteSpace (w1 @ w2 @ w3 @ w4 @ w5 @ w6)"
    and ne: "b \<noteq> []" "n \<noteq> []"
    and nws: "list_all (\<lambda>c. \<not> isWhiteSpace c) (b @ n)"
    unfolding blockHere_def by blast
  from s0 have s: "s = utf16 ''worktree:'' @ w1 @ newline # w2 @
            utf16 ''baseBranch:'' @ w3 @ b @ w4 @ newline # w5 @
            utf16 ''branchName:'' @ w6 @ n @ post" by simp
  from ws have w: "list_all (atomMatches Space) w1" "list_all (atomMatches Space) w2"
       "list_all (atomMatches Space) w3" "list_all (atomMatches Space) w4"
       "list_all (atomMatches Space) w5" "list_all (atomMatches Space) w6"
    by (simp_all add: list_all_Space)
  from ne nws have b: "b \<noteq> []" "list_all (atomMatches NonSpace) b"
    and n: "n \<noteq> []" "list_all (atomMatches NonSpace) n"
    by (simp_all add: list_all_NonSpace)
  have re: "worktreeRegex =
     map (\<lambda>c. One (Chr c)) (utf16 ''worktree:'') @ Star Space # One (Chr newline) # Star Space #
     map (\<lambda>c. One (Chr c)) (utf16 ''baseBranch:'') @ Star Space # GroupOpen # Plus NonSpace #
       GroupClose # Star Space # One (Chr newline) # Star Space #
     map (\<lambda>c. One (Chr c)) (utf16 ''branchName:'') @
       Star Space # GroupOpen # Plus NonSpace # GroupClose # []"
    by (simp add: worktreeRegex_def lit_def)
  have am: "atomMatches (Chr newline) newline" by simp
  show ?thesis
    unfolding re s
    by (intro accepts_lit accepts_Star accepts_One accepts_Plus accepts_Group [THEN iffD2]
        w b n am accepts_Nil)
qed

lemma parseWorktreeConfig_Some:
  assumes "search worktreeRegex content = Some caps"
  shows "\<exists>b n. parseWorktreeConfig content = Some \<lparr>baseBranch = b, branchName = n\<rparr> \<and>
           worktreeBlock content b n \<and> firstWorktreeBlock content b n"
proof -
  from search_sound [OF assms] obtain pre rest where
    c: "content = pre @ rest" and m: "matchHere worktreeRegex rest None [] = Some caps"
    and first: "\<forall>pre' rest'. content = pre' @ rest' \<and> length pre' < length pre \<longrightarrow>
          matchHere worktreeRegex rest' None [] = None" by blast
  from worktreeRegex_sound [OF m] obtain b n where
    caps: "caps = [b, n]" and blk: "blockHere rest b n" by blast
  from blk have "b \<noteq> []" "n \<noteq> []" by (auto simp: blockHere_def)
  with assms caps have "parseWorktreeConfig content = Some \<lparr>baseBranch = b, branchName = n\<rparr>"
    by (simp add: parseWorktreeConfig_def)
  moreover from c blk have "worktreeBlock content b n"
    unfolding worktreeBlock_def by blast
  moreover have nf: "\<forall>pre' s' b' n'. content = pre' @ s' \<and> length pre' < length pre \<longrightarrow>
           \<not> blockHere s' b' n'"
  proof (intro allI impI notI)
    fix pre' s' b' n'
    assume a: "content = pre' @ s' \<and> length pre' < length pre" and blk': "blockHere s' b' n'"
    from blk' have "accepts worktreeRegex s'" by (rule worktreeRegex_complete)
    then have "matchHere worktreeRegex s' None [] \<noteq> None" by (simp add: accepts_def)
    moreover from first [rule_format, of pre' s', OF a]
    have "matchHere worktreeRegex s' None [] = None" .
    ultimately show False by simp
  qed
  have "firstWorktreeBlock content b n"
    unfolding firstWorktreeBlock_def
  proof (intro exI conjI)
    show "content = pre @ rest" by (rule c)
    show "blockHere rest b n" by (rule blk)
    show "\<forall>pre' s' b' n'. content = pre' @ s' \<and> length pre' < length pre \<longrightarrow>
           \<not> blockHere s' b' n'" by (rule nf)
  qed
  ultimately show ?thesis by blast
qed

lemma parseWorktreeConfig_None:
  assumes "search worktreeRegex content = None"
  shows "parseWorktreeConfig content = None \<and> \<not> worktreeBlock content b n"
proof -
  have "\<not> worktreeBlock content b n"
  proof
    assume "worktreeBlock content b n"
    then obtain pre s where "content = pre @ s" "blockHere s b n"
      unfolding worktreeBlock_def by blast
    with worktreeRegex_complete search_complete assms show False by blast
  qed
  with assms show ?thesis by (simp add: parseWorktreeConfig_def)
qed

text \<open>
  Claim C9, as amended. parseWorktreeConfig returns a configuration exactly when the input
  contains \<^verbatim>\<open>worktree:\<close>, white space with a line break in it, \<^verbatim>\<open>baseBranch:\<close>, optional white
  space, a value free of white space, white space with a line break in it, \<^verbatim>\<open>branchName:\<close>,
  optional white space and a value free of white space. White space may run over several
  lines, so a value need not stand on the line of its key. The configuration returned
  carries the two values of the first such block, each taken up to the next white space.
  On every other input the result is null.
\<close>

theorem parseWorktreeConfig_iff:
  "((\<exists>cfg. parseWorktreeConfig content = Some cfg) \<longleftrightarrow> (\<exists>b n. worktreeBlock content b n)) \<and>
   (\<forall>cfg. parseWorktreeConfig content = Some cfg \<longrightarrow>
      firstWorktreeBlock content (baseBranch cfg) (branchName cfg)) \<and>
   ((\<forall>b n. \<not> worktreeBlock content b n) \<longrightarrow> parseWorktreeConfig content = None)"
proof (cases "search worktreeRegex content")
  case None
  from parseWorktreeConfig_None [OF this] show ?thesis by simp
next
  case (Some caps)
  from parseWorktreeConfig_Some [OF this] show ?thesis by auto
qed

lemma parseWorktreeConfig_planner_example:
  "parseWorktreeConfig (utf16
     ''[PLANNER:DONE]\<newline>\<newline>worktree:\<newline>  baseBranch: main\<newline>  branchName: add-auth\<newline>'') =
   Some \<lparr>baseBranch = utf16 ''main'', branchName = utf16 ''add-auth''\<rparr>"
  by code_simp

lemma parseWorktreeConfig_swapped_example:
  "parseWorktreeConfig (utf16
     ''worktree:\<newline>  branchName: add-auth\<newline>  baseBranch: main\<newline>'') = None"
  by code_simp

theorem parseWorktreeConfig_iff_witness:
  "parseWorktreeConfig (utf16
     ''[PLANNER:DONE]\<newline>\<newline>worktree:\<newline>  baseBranch: main\<newline>  branchName: add-auth\<newline>'') =
     Some \<lparr>baseBranch = utf16 ''main'', branchName = utf16 ''add-auth''\<rparr> \<and>
   firstWorktreeBlock (utf16
     ''[PLANNER:DONE]\<newline>\<newline>worktree:\<newline>  baseBranch: main\<newline>  branchName: add-auth\<newline>'')
     (utf16 ''main'') (utf16 ''add-auth'') \<and>
   parseWorktreeConfig (utf16
     ''worktree:\<newline>  branchName: add-auth\<newline>  baseBranch: main\<newline>'') = None \<and>
   \<not> (\<exists>b n. worktreeBlock (utf16
     ''worktree:\<newline>  branchName: add-auth\<newline>  baseBranch: main\<newline>'') b n)"
  using parseWorktreeConfig_iff [of "utf16
     ''[PLANNER:DONE]\<newline>\<newline>worktree:\<newline>  baseBranch: main\<newline>  branchName: add-auth\<newline>''"]
    parseWorktreeConfig_iff [of "utf16
     ''worktree:\<newline>  branchName: add-auth\<newline>  baseBranch: main\<newline>''"]
  unfolding parseWorktreeConfig_planner_example parseWorktreeConfig_swapped_example
  by simp

text \<open>
  Read line by line, the claim fails: in the input below no line has \<^verbatim>\<open>baseBranch:\<close>
  followed by a value, yet a configuration is returned, and its base branch is the text
  \<^verbatim>\<open>branchName:\<close> of the next line. The pattern's \<^verbatim>\<open>\s*\<close> also matches line breaks.
\<close>

lemma lineBlock_baseBranch:
  "lineBlock content \<Longrightarrow> list_ex (keyWithValue (utf16 ''baseBranch:'')) (splitLines content)"
  unfolding lineBlock_def list_ex_iff
proof (elim exE conjE)
  fix ls1 l1 ls2 l2 ls3 l3 ls4 pre post
  assume "splitLines content = ls1 @ l1 # ls2 @ l2 # ls3 @ l3 # ls4"
    and "keyWithValue (utf16 ''baseBranch:'') l2"
  then show "\<exists>l \<in> set (splitLines content). keyWithValue (utf16 ''baseBranch:'') l"
    by (intro bexI [of _ l2]) simp_all
qed

lemma no_baseBranch_value:
  "\<not> list_ex (keyWithValue (utf16 ''baseBranch:''))
     (splitLines (utf16 ''worktree:\<newline>baseBranch:\<newline>branchName:\<newline>branchName: y''))"
  by code_simp

lemma parseWorktreeConfig_empty_value_example:
  "parseWorktreeConfig
     (utf16 ''worktree:\<newline>baseBranch:\<newline>branchName:\<newline>branchName: y'') =
   Some \<lparr>baseBranch = utf16 ''branchName:'', branchName = utf16 ''y''\<rparr>"
  by code_simp

theorem parseWorktreeConfig_line_counterexample:
  "parseWorktreeConfig
     (utf16 ''worktree:\<newline>baseBranch:\<newline>branchName:\<newline>branchName: y'') =
     Some \<lparr>baseBranch = utf16 ''branchName:'', branchName = utf16 ''y''\<rparr> \<and>
   \<not> lineBlock (utf16 ''worktree:\<newline>baseBranch:\<newline>branchName:\<newline>branchName: y'')"
  using parseWorktreeConfig_empty_value_example no_baseBranch_value lineBlock_baseBranch
  by blast

section \<open>Properties of executeWorkflow\<close>

lemma trace_handleAction:
  "trace (handleAction paths cw cwd st a) = trace st @ actionEffects cwd a"
  by (cases a) (simp_all add: Let_def split: option.splits)

lemma persisted_handleAction:
  "persisted (handleAction paths cw cwd st a) = applyUpdate paths cwd (persisted st) a"
  by (cases a) (simp_all add: Let_def split: option.splits)

lemma trace_foldl:
  "trace (foldl (handleAction paths cw cwd) st as) =
     trace st @ concat (map (actionEffects cwd) as)"
  by (induction as arbitrary: st) (simp_all add: trace_handleAction)

lemma persisted_foldl:
  "persisted (foldl (handleAction paths cw cwd) st as) =
     foldl (applyUpdate paths cwd) (persisted st) as"
  by (induction as arbitrary: st) (simp_all add: persisted_handleAction)

lemma find_actionEffects:
  "find (isInvoke agent) as = Some (Invoke agent token) \<Longrightarrow>
   find (isRunAgent agent) (concat (map (actionEffects cwd) as)) = Some (RunAgent agent token)"
proof (induction as)
  case Nil
  then show ?case by simp
next
  case (Cons a as)
  then show ?case by (cases a) (auto split: if_splits)
qed

lemma executeWorkflow_state:
  assumes "engine cfg cwd task
      (loadAgentSessions paths cwd
         (if resume then persisted st else clearAgentSessions paths cwd (persisted st))) =
      (actions, final)"
  shows "snd (executeWorkflow paths engine cw cfg task cwd resume st) =
     foldl (handleAction paths cw cwd)
       (st\<lparr>persisted :=
             (if resume then persisted st else clearAgentSessions paths cwd (persisted st)),
           trace := trace st @ (if resume then [] else [ClearAgentSessions cwd]) @
             [LoadAgentSessions cwd,
              NewWorkflowEngine cwd (loadAgentSessions paths cwd
                (if resume then persisted st
                 else clearAgentSessions paths cwd (persisted st)))],
           worktreeInfo := None, abortReason := None\<rparr>) actions"
  using assms by (cases resume) (simp_all add: executeWorkflow_def Let_def)

lemma executeWorkflow_trace:
  assumes "engine cfg cwd task
      (loadAgentSessions paths cwd
         (if resume then persisted st else clearAgentSessions paths cwd (persisted st))) =
      (actions, final)"
  shows "trace (snd (executeWorkflow paths engine cw cfg task cwd resume st)) =
     trace st @ (if resume then [] else [ClearAgentSessions cwd]) @
     [LoadAgentSessions cwd,
      NewWorkflowEngine cwd (loadAgentSessions paths cwd
        (if resume then persisted st else clearAgentSessions paths cwd (persisted st)))] @
     concat (map (actionEffects cwd) actions)"
  using executeWorkflow_state [of engine cfg cwd task paths resume st actions final cw] assms
  by (simp add: trace_foldl)

lemma executeWorkflow_persisted:
  assumes "engine cfg cwd task
      (loadAgentSessions paths cwd
         (if resume then persisted st else clearAgentSessions paths cwd (persisted st))) =
      (actions, final)"
  shows "persisted (snd (executeWorkflow paths engine cw cfg task cwd resume st)) =
     foldl (applyUpdate paths cwd)
       (if resume then persisted st else clearAgentSessions paths cwd (persisted st)) actions"
  using executeWorkflow_state [of engine cfg cwd task paths resume st actions final cw] assms
  by (simp add: persisted_foldl)

lemma executeWorkflow_first_invocation:
  assumes "\<forall>m. find (isInvoke agent) (fst (engine cfg cwd task m)) = Some (Invoke agent (m agent))"
  shows "find (isRunAgent agent) (drop (length (trace st))
           (trace (snd (executeWorkflow paths engine cw cfg task cwd resume st)))) =
         Some (RunAgent agent (loadAgentSessions paths cwd
           (if resume then persisted st else clearAgentSessions paths cwd (persisted st)) agent))"
proof -
  let ?m = "loadAgentSessions paths cwd
      (if resume then persisted st else clearAgentSessions paths cwd (persisted st))"
  obtain actions final where e: "engine cfg cwd task ?m = (actions, final)"
    by (cases "engine cfg cwd task ?m")
  with assms have "find (isInvoke agent) actions = Some (Invoke agent (?m agent))"
    by (metis fst_conv)
  then have f: "find (isRunAgent agent) (concat (map (actionEffects cwd) actions)) =
      Some (RunAgent agent (?m agent))"
    by (rule find_actionEffects)
  show ?thesis
    unfolding executeWorkflow_trace [of engine cfg cwd task paths resume st actions final cw, OF e]
    using f by (cases resume) simp_all
qed

text \<open>
  Claim C7. With \<^verbatim>\<open>resumeSession = false\<close> the first thing executeWorkflow does is to call
  clearAgentSessions; it then loads the sessions and constructs the engine with what the
  load returned, before anything the engine does. With \<^verbatim>\<open>resumeSession = true\<close> it does not
  clear: the engine is constructed with the persisted session map. In both cases every
  session update of the engine becomes a call of updateAgentSession, in order, and the
  store ends as the initial (or cleared) one with these updates applied. For an engine
  that passes the token its initial session map holds for an agent to the first invocation
  of that agent, that invocation carries the persisted token when resuming, and no token
  when starting fresh, where loading after clearing gives the empty map.
\<close>

theorem executeWorkflow_sessions:
  "(engine cfg cwd task
      (loadAgentSessions paths cwd (clearAgentSessions paths cwd (persisted st))) =
      (actions, final) \<longrightarrow>
      trace (snd (executeWorkflow paths engine cw cfg task cwd False st)) =
        trace st @
        [ClearAgentSessions cwd, LoadAgentSessions cwd,
         NewWorkflowEngine cwd
           (loadAgentSessions paths cwd (clearAgentSessions paths cwd (persisted st)))] @
        concat (map (actionEffects cwd) actions) \<and>
      persisted (snd (executeWorkflow paths engine cw cfg task cwd False st)) =
        foldl (applyUpdate paths cwd) (clearAgentSessions paths cwd (persisted st)) actions) \<and>
   (engine cfg cwd task (loadAgentSessions paths cwd (persisted st)) = (actions', final') \<longrightarrow>
      trace (snd (executeWorkflow paths engine cw cfg task cwd True st)) =
        trace st @
        [LoadAgentSessions cwd,
         NewWorkflowEngine cwd (loadAgentSessions paths cwd (persisted st))] @
        concat (map (actionEffects cwd) actions') \<and>
      persisted (snd (executeWorkflow paths engine cw cfg task cwd True st)) =
        foldl (applyUpdate paths cwd) (persisted st) actions') \<and>
   ((\<forall>m. find (isInvoke agent) (fst (engine cfg cwd task m)) = Some (Invoke agent (m agent))) \<longrightarrow>
      find (isRunAgent agent) (drop (length (trace st))
        (trace (snd (executeWorkflow paths engine cw cfg task cwd True st)))) =
        Some (RunAgent agent (loadAgentSessions paths cwd (persisted st) agent)) \<and>
      (loadAgentSessions paths cwd (clearAgentSessions paths cwd (persisted st)) = Map.empty \<longrightarrow>
         find (isRunAgent agent) (drop (length (trace st))
           (trace (snd (executeWorkflow paths engine cw cfg task cwd False st)))) =
           Some (RunAgent agent None)))"
proof (intro conjI impI)
  assume e: "engine cfg cwd task
      (loadAgentSessions paths cwd (clearAgentSessions paths cwd (persisted st))) =
      (actions, final)"
  show "trace (snd (executeWorkflow paths engine cw cfg task cwd False st)) =
        trace st @
        [ClearAgentSessions cwd, LoadAgentSessions cwd,
         NewWorkflowEngine cwd
           (loadAgentSessions paths cwd (clearAgentSessions paths cwd (persisted st)))] @
        concat (map (actionEffects cwd) actions)"
    using executeWorkflow_trace [of engine cfg cwd task paths False st actions final cw] e
    by simp
  show "persisted (snd (executeWorkflow paths engine cw cfg task cwd False st)) =
        foldl (applyUpdate paths cwd) (clearAgentSessions paths cwd (persisted st)) actions"
    using executeWorkflow_persisted [of engine cfg cwd task paths False st actions final cw] e
    by simp
next
  assume e: "engine cfg cwd task (loadAgentSessions paths cwd (persisted st)) = (actions', final')"
  show "trace (snd (executeWorkflow paths engine cw cfg task cwd True st)) =
        trace st @
        [LoadAgentSessions cwd,
         NewWorkflowEngine cwd (loadAgentSessions paths cwd (persisted st))] @
        concat (map (actionEffects cwd) actions')"
    using executeWorkflow_trace [of engine cfg cwd task paths True st actions' final' cw] e
    by simp
  show "persisted (snd (executeWorkflow paths engine cw cfg task cwd True st)) =
        foldl (applyUpdate paths cwd) (persisted st) actions'"
    using executeWorkflow_persisted [of engine cfg cwd task paths True st actions' final' cw] e
    by simp
next
  assume h: "\<forall>m. find (isInvoke agent) (fst (engine cfg cwd task m)) = Some (Invoke agent (m agent))"
  show "find (isRunAgent agent) (drop (length (trace st))
        (trace (snd (executeWorkflow paths engine cw cfg task cwd True st)))) =
        Some (RunAgent agent (loadAgentSessions paths cwd (persisted st) agent))"
    using executeWorkflow_first_invocation
      [where agent = agent and engine = engine and cfg = cfg and cwd = cwd and task = task
         and st = st and paths = paths and cw = cw and resume = True] h
    by simp
next
  assume h: "\<forall>m. find (isInvoke agent) (fst (engine cfg cwd task m)) = Some (Invoke agent (m agent))"
    and c: "loadAgentSessions paths cwd (clearAgentSessions paths cwd (persisted st)) = Map.empty"
  show "find (isRunAgent agent) (drop (length (trace st))
           (trace (snd (executeWorkflow paths engine cw cfg task cwd False st)))) =
           Some (RunAgent agent None)"
    using executeWorkflow_first_invocation
      [where agent = agent and engine = engine and cfg = cfg and cwd = cwd and task = task
         and st = st and paths = paths and cw = cw and resume = False] h c
    by simp
qed

theorem executeWorkflow_sessions_witness:
  "trace (snd (executeWorkflow storedSessions
      (scriptedEngine [(''planner'', ''tok-2''), (''coder'', ''tok-9'')] completed)
      (\<lambda>cwd branch base. None :: unit option) () ''task'' ''/project'' True
      \<lparr>persisted = (\<lambda>dir. Map.empty)(''/project'' := [''planner'' \<mapsto> ''tok-1'']),
       trace = [], worktreeInfo = None, abortReason = None\<rparr>)) =
     [LoadAgentSessions ''/project'',
      NewWorkflowEngine ''/project'' [''planner'' \<mapsto> ''tok-1''],
      RunAgent ''planner'' (Some ''tok-1''),
      UpdateAgentSession ''/project'' ''planner'' ''tok-2'',
      RunAgent ''coder'' None,
      UpdateAgentSession ''/project'' ''coder'' ''tok-9''] \<and>
   persisted (snd (executeWorkflow storedSessions
      (scriptedEngine [(''planner'', ''tok-2''), (''coder'', ''tok-9'')] completed)
      (\<lambda>cwd branch base. None :: unit option) () ''task'' ''/project'' True
      \<lparr>persisted = (\<lambda>dir. Map.empty)(''/project'' := [''planner'' \<mapsto> ''tok-1'']),
       trace = [], worktreeInfo = None, abortReason = None\<rparr>)) ''/project'' ''planner'' =
     Some ''tok-2'' \<and>
   trace (snd (executeWorkflow storedSessions
      (scriptedEngine [(''planner'', ''tok-2''), (''coder'', ''tok-9'')] completed)
      (\<lambda>cwd branch base. None :: unit option) () ''task'' ''/project'' False
      \<lparr>persisted = (\<lambda>dir. Map.empty)(''/project'' := [''planner'' \<mapsto> ''tok-1'']),
       trace = [], worktreeInfo = None, abortReason = None\<rparr>)) =
     [ClearAgentSessions ''/project'',
      LoadAgentSessions ''/project'',
      NewWorkflowEngine ''/project'' Map.empty,
      RunAgent ''planner'' None,
      UpdateAgentSession ''/project'' ''planner'' ''tok-2'',
      RunAgent ''coder'' None,
      UpdateAgentSession ''/project'' ''coder'' ''tok-9'']"
  using executeWorkflow_sessions [where
      paths = storedSessions
      and engine = "scriptedEngine [(''planner'', ''tok-2''), (''coder'', ''tok-9'')] completed"
      and cw = "\<lambda>cwd branch base. None :: unit option" and cfg = "()" and task = "''task''"
      and cwd = "''/project''"
      and st = "\<lparr>persisted = (\<lambda>dir. Map.empty)(''/project'' := [''planner'' \<mapsto> ''tok-1'']),
                trace = [], worktreeInfo = None, abortReason = None\<rparr>"
      and actions = "sessionActions Map.empty [(''planner'', ''tok-2''), (''coder'', ''tok-9'')]"
      and final = completed
      and actions' = "sessionActions [''planner'' \<mapsto> ''tok-1'']
                        [(''planner'', ''tok-2''), (''coder'', ''tok-9'')]"
      and final' = completed
      and agent = "''planner''"]
  by (simp add: scriptedEngine_def storedSessions_def)

section \<open>Properties of hasTagBasedRules\<close>

text \<open>
  hasTagBasedRules holds exactly for a movement with at least one rule that is neither an
  AI condition nor an aggregate condition; it fails exactly when the rule list is missing,
  empty, or made of such rules only.
\<close>

lemma hasTagBasedRules_iff:
  "hasTagBasedRules step \<longleftrightarrow>
     (\<exists>rs. rules step = Some rs \<and> (\<exists>r \<in> set rs. isTagBased r))"
  by (cases "rules step")
     (auto simp: hasTagBasedRules_def isTagBased_def list_all_iff)

lemma hasTagBasedRules_False_iff:
  "\<not> hasTagBasedRules step \<longleftrightarrow>
     rules step = None \<or> rules step = Some [] \<or>
     (\<exists>rs. rules step = Some rs \<and> (\<forall>r \<in> set rs. isAiCondition r \<or> isAggregateCondition r))"
  by (cases "rules step")
     (auto simp: hasTagBasedRules_def list_all_iff)

section \<open>Properties of the Rule Matcher\<close>

lemma resolve_Some_iff:
  "resolve judge rs signal = Some r \<longleftrightarrow>
     (\<exists>i < length rs. rs ! i = r \<and> ruleMatches judge signal r \<and>
        (\<forall>j < i. \<not> ruleMatches judge signal (rs ! j)))"
proof (induction rs)
  case Nil
  then show ?case by simp
next
  case (Cons a rs)
  show ?case
  proof (cases "ruleMatches judge signal a")
    case True
    have "(\<exists>i < length (a # rs). (a # rs) ! i = r \<and> ruleMatches judge signal r \<and>
        (\<forall>j < i. \<not> ruleMatches judge signal ((a # rs) ! j))) \<longleftrightarrow> a = r"
    proof
      assume "\<exists>i < length (a # rs). (a # rs) ! i = r \<and> ruleMatches judge signal r \<and>
        (\<forall>j < i. \<not> ruleMatches judge signal ((a # rs) ! j))"
      then obtain i where i: "(a # rs) ! i = r"
        "\<forall>j < i. \<not> ruleMatches judge signal ((a # rs) ! j)" by blast
      with True have "i = 0" by (cases i) auto
      with i show "a = r" by simp
    next
      assume "a = r"
      with True show "\<exists>i < length (a # rs). (a # rs) ! i = r \<and> ruleMatches judge signal r \<and>
        (\<forall>j < i. \<not> ruleMatches judge signal ((a # rs) ! j))"
        by (intro exI [of _ 0]) simp
    qed
    with True show ?thesis by auto
  next
    case False
    have "(\<exists>i < length (a # rs). (a # rs) ! i = r \<and> ruleMatches judge signal r \<and>
        (\<forall>j < i. \<not> ruleMatches judge signal ((a # rs) ! j))) \<longleftrightarrow>
      (\<exists>i < length rs. rs ! i = r \<and> ruleMatches judge signal r \<and>
        (\<forall>j < i. \<not> ruleMatches judge signal (rs ! j)))" (is "?L \<longleftrightarrow> ?R")
    proof
      assume ?L
      then obtain i where i: "i < length (a # rs)" "(a # rs) ! i = r"
        "ruleMatches judge signal r"
        "\<forall>j < i. \<not> ruleMatches judge signal ((a # rs) ! j)" by blast
      with False obtain k where k: "i = Suc k" by (cases i) auto
      have "\<forall>j < k. \<not> ruleMatches judge signal (rs ! j)"
      proof (intro allI impI)
        fix j assume "j < k"
        then have "Suc j < i" using k by simp
        with i(4) have "\<not> ruleMatches judge signal ((a # rs) ! Suc j)" by blast
        then show "\<not> ruleMatches judge signal (rs ! j)" by simp
      qed
      with i k show ?R by (intro exI [of _ k]) simp
    next
      assume ?R
      then obtain k where k: "k < length rs" "rs ! k = r" "ruleMatches judge signal r"
        "\<forall>j < k. \<not> ruleMatches judge signal (rs ! j)" by blast
      have "\<forall>j < Suc k. \<not> ruleMatches judge signal ((a # rs) ! j)"
      proof (intro allI impI)
        fix j assume "j < Suc k"
        with k(4) False show "\<not> ruleMatches judge signal ((a # rs) ! j)"
          by (cases j) auto
      qed
      with k show ?L by (intro exI [of _ "Suc k"]) simp
    qed
    with False Cons.IH show ?thesis by simp
  qed
qed

lemma resolve_None_iff:
  "resolve judge rs signal = None \<longleftrightarrow> (\<forall>r \<in> set rs. \<not> ruleMatches judge signal r)"
  by (induction rs) auto

lemma resolve_first:
  assumes "\<exists>r \<in> set rs. ruleMatches judge signal r"
  shows "\<exists>i < length rs. resolve judge rs signal = Some (rs ! i) \<and>
           ruleMatches judge signal (rs ! i) \<and>
           (\<forall>j < i. \<not> ruleMatches judge signal (rs ! j))"
proof -
  from assms have "resolve judge rs signal \<noteq> None"
    by (simp add: resolve_None_iff)
  then obtain r where r: "resolve judge rs signal = Some r" by blast
  then obtain i where "i < length rs" "rs ! i = r" "ruleMatches judge signal r"
    "\<forall>j < i. \<not> ruleMatches judge signal (rs ! j)"
    unfolding resolve_Some_iff by blast
  with r show ?thesis by blast
qed

text \<open>
  Claim C1. Whenever some rule of the list matches the signal, the Rule Matcher returns
  the matching rule of least index: no rule declared before it matches. When no rule
  matches, the result is NoMatch. For the rules \<^verbatim>\<open>done -> COMPLETE\<close>, \<^verbatim>\<open>done -> X\<close> and the
  tag \<^verbatim>\<open>done\<close> the next movement is COMPLETE.
\<close>

theorem resolve_first_match:
  "((\<exists>r \<in> set rs. ruleMatches judge signal r) \<longrightarrow>
      (\<exists>i < length rs. resolve judge rs signal = Some (rs ! i) \<and>
         ruleMatches judge signal (rs ! i) \<and>
         (\<forall>j < i. \<not> ruleMatches judge signal (rs ! j)))) \<and>
   ((\<forall>r \<in> set rs. \<not> ruleMatches judge signal r) \<longrightarrow> resolve judge rs signal = None) \<and>
   map_option rule_next
     (resolve judge [tagRule ''done'' COMPLETE_MOVEMENT, tagRule ''done'' ''X''] (Tag ''done'')) =
     Some ''COMPLETE''"
proof (intro conjI impI)
  assume "\<exists>r \<in> set rs. ruleMatches judge signal r"
  then show "\<exists>i < length rs. resolve judge rs signal = Some (rs ! i) \<and>
         ruleMatches judge signal (rs ! i) \<and>
         (\<forall>j < i. \<not> ruleMatches judge signal (rs ! j))"
    by (rule resolve_first)
next
  assume "\<forall>r \<in> set rs. \<not> ruleMatches judge signal r"
  then show "resolve judge rs signal = None" by (simp add: resolve_None_iff)
next
  show "map_option rule_next
     (resolve judge [tagRule ''done'' COMPLETE_MOVEMENT, tagRule ''done'' ''X''] (Tag ''done'')) =
     Some ''COMPLETE''"
    by (simp add: tagRule_def COMPLETE_MOVEMENT_def)
qed

theorem resolve_first_match_witness:
  "ruleMatches (\<lambda>d. False) (Tag ''done'') (tagRule ''done'' ''X'') \<and>
   resolve (\<lambda>d. False)
     [tagRule ''blocked'' ABORT_MOVEMENT, tagRule ''done'' COMPLETE_MOVEMENT, tagRule ''done'' ''X'']
     (Tag ''done'') = Some (tagRule ''done'' COMPLETE_MOVEMENT) \<and>
   resolve (\<lambda>d. False)
     [tagRule ''blocked'' ABORT_MOVEMENT, tagRule ''done'' COMPLETE_MOVEMENT, tagRule ''done'' ''X'']
     (Tag ''unknown'') = None"
  using resolve_first_match [of
      "[tagRule ''blocked'' ABORT_MOVEMENT, tagRule ''done'' COMPLETE_MOVEMENT, tagRule ''done'' ''X'']"
      "\<lambda>d. False" "Tag ''done''"]
    resolve_first_match [of
      "[tagRule ''blocked'' ABORT_MOVEMENT, tagRule ''done'' COMPLETE_MOVEMENT, tagRule ''done'' ''X'']"
      "\<lambda>d. False" "Tag ''unknown''"]
  by (simp add: tagRule_def COMPLETE_MOVEMENT_def ABORT_MOVEMENT_def)

lemma ruleMatches_all:
  "isAggregateCondition r \<Longrightarrow> aggregateType r = Some All \<Longrightarrow> aggregateConditionText r = Some c \<Longrightarrow>
   ruleMatches judge (Outcomes m) r \<longleftrightarrow> (\<forall>(sub, outcome) \<in> set m. outcome = c)"
  by (simp add: list_all_iff)

lemma ruleMatches_any:
  "isAggregateCondition r \<Longrightarrow> aggregateType r = Some Any \<Longrightarrow> aggregateConditionText r = Some c \<Longrightarrow>
   ruleMatches judge (Outcomes m) r \<longleftrightarrow> (\<exists>(sub, outcome) \<in> set m. outcome = c)"
  by (simp add: list_ex_iff)

text \<open>
  Claim C2. On the outcomes of a fan-out, an \<^verbatim>\<open>all\<close> aggregate rule with condition text
  \<open>c\<close> matches iff every sub-movement's condition is \<open>c\<close>, an \<^verbatim>\<open>any\<close> rule iff at least one
  is; the rules are tried in declared order and the first that matches is returned.
\<close>

theorem resolve_aggregate:
  "(isAggregateCondition r \<and> aggregateType r = Some All \<and> aggregateConditionText r = Some c \<longrightarrow>
      (ruleMatches judge (Outcomes m) r \<longleftrightarrow> (\<forall>(sub, outcome) \<in> set m. outcome = c))) \<and>
   (isAggregateCondition r \<and> aggregateType r = Some Any \<and> aggregateConditionText r = Some c \<longrightarrow>
      (ruleMatches judge (Outcomes m) r \<longleftrightarrow> (\<exists>(sub, outcome) \<in> set m. outcome = c))) \<and>
   ((\<exists>r \<in> set rs. ruleMatches judge (Outcomes m) r) \<longrightarrow>
      (\<exists>i < length rs. resolve judge rs (Outcomes m) = Some (rs ! i) \<and>
         ruleMatches judge (Outcomes m) (rs ! i) \<and>
         (\<forall>j < i. \<not> ruleMatches judge (Outcomes m) (rs ! j)))) \<and>
   ((\<forall>r \<in> set rs. \<not> ruleMatches judge (Outcomes m) r) \<longrightarrow>
      resolve judge rs (Outcomes m) = None)"
  using ruleMatches_all [of r c judge m] ruleMatches_any [of r c judge m]
    resolve_first [of rs judge "Outcomes m"] resolve_None_iff [of judge rs "Outcomes m"]
  by blast

theorem resolve_aggregate_witness:
  "ruleMatches (\<lambda>d. False)
     (Outcomes [(''arch-review'', ''approved''), (''frontend-review'', ''approved''),
                (''security-review'', ''approved''), (''qa-review'', ''approved'')])
     (aggregateRule All ''approved'' COMPLETE_MOVEMENT) \<and>
   \<not> ruleMatches (\<lambda>d. False)
     (Outcomes [(''arch-review'', ''approved''), (''frontend-review'', ''needs_fix''),
                (''security-review'', ''approved''), (''qa-review'', ''approved'')])
     (aggregateRule All ''approved'' COMPLETE_MOVEMENT) \<and>
   ruleMatches (\<lambda>d. False)
     (Outcomes [(''arch-review'', ''approved''), (''frontend-review'', ''needs_fix''),
                (''security-review'', ''approved''), (''qa-review'', ''approved'')])
     (aggregateRule Any ''needs_fix'' ''fix'') \<and>
   resolve (\<lambda>d. False)
     [aggregateRule All ''approved'' COMPLETE_MOVEMENT, aggregateRule Any ''needs_fix'' ''fix'',
      aggregateRule Any ''approved'' ''X'']
     (Outcomes [(''arch-review'', ''approved''), (''frontend-review'', ''needs_fix''),
                (''security-review'', ''approved''), (''qa-review'', ''approved'')]) =
     Some (aggregateRule Any ''needs_fix'' ''fix'')"
  using resolve_aggregate [of "aggregateRule All ''approved'' COMPLETE_MOVEMENT" "''approved''"
      "\<lambda>d. False"
      "[(''arch-review'', ''approved''), (''frontend-review'', ''approved''),
        (''security-review'', ''approved''), (''qa-review'', ''approved'')]"
      "[aggregateRule All ''approved'' COMPLETE_MOVEMENT, aggregateRule Any ''needs_fix'' ''fix'',
        aggregateRule Any ''approved'' ''X'']"]
    resolve_aggregate [of "aggregateRule Any ''needs_fix'' ''fix''" "''needs_fix''"
      "\<lambda>d. False"
      "[(''arch-review'', ''approved''), (''frontend-review'', ''needs_fix''),
        (''security-review'', ''approved''), (''qa-review'', ''approved'')]"
      "[aggregateRule All ''approved'' COMPLETE_MOVEMENT, aggregateRule Any ''needs_fix'' ''fix'',
        aggregateRule Any ''approved'' ''X'']"]
  by (simp add: aggregateRule_def COMPLETE_MOVEMENT_def)

end
